theory Spec2Isabelle
  imports Main
begin

section \<open>Tic-Tac-Toe: the board of \<open>tic_tac_toe.py\<close>\<close>

text \<open>
  The embedding follows the Python source. A \<open>Player\<close> is a \<open>str\<close>, a
  \<open>Position\<close> a pair of Python integers, the grid a list of three row lists, and the
  blank cell is the one-character string \<open>'' ''\<close>. Every exception the code can raise is a
  value of \<open>exn\<close>; an operation that mutates the board before it raises returns the
  board as it stands at the \<open>raise\<close>.
\<close>

subsection \<open>Exceptions and Python indexing\<close>

text \<open>
  \<open>Win\<close> is raised with the message \<open>Player <repr of the mark> wins!\<close>; the
  constructor keeps the mark that is formatted into the message. \<open>GameOver\<close> and
  \<open>InvalidPosition\<close> keep their message.
\<close>

datatype exn =
    IndexError
  | InvalidPosition string
  | Win string
  | GameOver string

type_synonym player = string
type_synonym players = "player \<times> player"
type_synonym position = "int \<times> int"
type_synonym grid = "string list list"

text \<open>
  \<open>xs[i]\<close> on a Python sequence of length \<open>n\<close>: indices \<open>-n \<dots> -1\<close> count from the
  end, anything outside \<open>-n \<dots> n-1\<close> raises \<open>IndexError\<close>.
\<close>

definition py_slot :: "'a list \<Rightarrow> int \<Rightarrow> nat option" where
  "py_slot xs i =
     (if 0 \<le> i \<and> i < int (length xs) then Some (nat i)
      else if i < 0 \<and> - int (length xs) \<le> i then Some (nat (i + int (length xs)))
      else None)"

definition py_index :: "'a list \<Rightarrow> int \<Rightarrow> exn + 'a" where
  "py_index xs i = (case py_slot xs i of None \<Rightarrow> Inl IndexError | Some k \<Rightarrow> Inr (xs ! k))"

definition py_setitem :: "'a list \<Rightarrow> int \<Rightarrow> 'a \<Rightarrow> exn + 'a list" where
  "py_setitem xs i v = (case py_slot xs i of None \<Rightarrow> Inl IndexError | Some k \<Rightarrow> Inr (xs[k := v]))"

text \<open>\<open>grid[row][col]\<close>, read and written. The three rows are separate lists (the
  comprehension of \<open>reset_board\<close> builds each one anew), so writing one row leaves the
  others as they are.\<close>

definition cell :: "grid \<Rightarrow> position \<Rightarrow> exn + string" where
  "cell g pos =
     (case py_index g (fst pos) of
        Inl e \<Rightarrow> Inl e
      | Inr r \<Rightarrow> py_index r (snd pos))"

definition set_cell :: "grid \<Rightarrow> position \<Rightarrow> string \<Rightarrow> exn + grid" where
  "set_cell g pos v =
     (case py_slot g (fst pos) of
        None \<Rightarrow> Inl IndexError
      | Some k \<Rightarrow>
          (case py_setitem (g ! k) (snd pos) v of
             Inl e \<Rightarrow> Inl e
           | Inr r \<Rightarrow> Inr (g[k := r])))"

subsection \<open>The class \<open>Board\<close>\<close>

record board =
  grid :: grid
  turn :: int
  filled_squares :: int
  players :: players

text \<open>\<open>Board._AXES\<close>: a tuple of eight sets of positions.\<close>

definition AXES :: "position set list" where
  "AXES =
     [{(0, 0), (0, 1), (0, 2)},
      {(1, 0), (1, 1), (1, 2)},
      {(2, 0), (2, 1), (2, 2)},
      {(0, 0), (1, 0), (2, 0)},
      {(0, 1), (1, 1), (2, 1)},
      {(0, 2), (1, 2), (2, 2)},
      {(0, 0), (1, 1), (2, 2)},
      {(2, 0), (1, 1), (0, 2)}]"

text \<open>
  The body of the loop of \<open>_check_win\<close> for one axis: \<open>Inr True\<close> is \<open>return True\<close>,
  \<open>Inr False\<close> is \<open>continue\<close>. \<open>vals\<close> holds distinct positions (it is filtered from a
  set), so its length is the cardinality of the filtered set; the set comprehension of
  line 65 is the image of \<open>vals\<close> under the cell read. A cell read that raises ends the
  call with \<open>IndexError\<close>.
\<close>

definition check_axis :: "grid \<Rightarrow> position set \<Rightarrow> exn + bool" where
  "check_axis g axis =
     (if \<exists>x\<in>axis. isl (cell g x) then Inl IndexError
      else
        let vals = Set.filter (\<lambda>x. cell g x \<noteq> Inr '' '') axis in
        if card vals < 3 then Inr False
        else if card ((\<lambda>x. cell g x) ` vals) > 1 then Inr False
        else Inr True)"

fun check_axes :: "grid \<Rightarrow> position set list \<Rightarrow> exn + bool" where
  "check_axes g [] = Inr False"
| "check_axes g (axis # rest) =
     (case check_axis g axis of
        Inl e \<Rightarrow> Inl e
      | Inr True \<Rightarrow> Inr True
      | Inr False \<Rightarrow> check_axes g rest)"

definition check_win :: "board \<Rightarrow> position \<Rightarrow> exn + bool" where
  "check_win b pos = check_axes (grid b) (filter (\<lambda>axis. pos \<in> axis) AXES)"

definition reset_board :: "board \<Rightarrow> board" where
  "reset_board b =
     b\<lparr>grid := map (\<lambda>i. replicate 3 '' '') [0..<3], turn := 0, filled_squares := 0\<rparr>"

text \<open>\<open>Board.__init__\<close>: the fields are set by \<open>reset_board\<close>, then the players.\<close>

definition init_board :: "players \<Rightarrow> board" where
  "init_board ps =
     (reset_board \<lparr>grid = [], turn = 0, filled_squares = 0, players = ps\<rparr>)\<lparr>players := ps\<rparr>"

text \<open>\<open>display_board\<close> prints the nine cells; what it prints is not modelled, only that
  each of its reads can raise.\<close>

definition display_board :: "board \<Rightarrow> exn + unit" where
  "display_board b =
     (if \<exists>i\<in>{0, 1, 2}. \<exists>j\<in>{0, 1, 2}. isl (cell (grid b) (i, j))
      then Inl IndexError else Inr ())"

text \<open>
  \<open>Board.move\<close>. The result is the exception raised, if any, and the board after the
  call. The right-hand side \<open>self._players[self._turn]\<close> is evaluated first, then the
  target \<open>self._grid[row][col]\<close>; nothing is written when either raises.
  \<open>int(not self._turn)\<close> is 1 for a turn of 0 and 0 otherwise.
\<close>

definition move :: "board \<Rightarrow> position \<Rightarrow> exn option \<times> board" where
  "move b pos =
     (case py_index [fst (players b), snd (players b)] (turn b) of
        Inl e \<Rightarrow> (Some e, b)
      | Inr mark \<Rightarrow>
     (case set_cell (grid b) pos mark of
        Inl e \<Rightarrow> (Some e, b)
      | Inr g \<Rightarrow>
     let b1 = b\<lparr>grid := g\<rparr> in
     (case display_board b1 of
        Inl e \<Rightarrow> (Some e, b1)
      | Inr _ \<Rightarrow>
     let b2 = b1\<lparr>filled_squares := filled_squares b1 + 1\<rparr>;
         rest = (if filled_squares b2 = 9 then (Some (GameOver ''Game Over!''), b2)
                 else (None, b2\<lparr>turn := (if turn b2 = 0 then 1 else 0)\<rparr>))
     in
       if filled_squares b2 \<ge> 5 then
         (case check_win b2 pos of
            Inl e \<Rightarrow> (Some e, b2)
          | Inr win \<Rightarrow> if win then (Some (Win mark), b2) else rest)
       else rest)))"

subsection \<open>The class \<open>TicTacToe\<close>: validation of a typed position\<close>

definition allowed_positions :: "(string \<times> position) list" where
  "allowed_positions =
     [(''1'', (0, 0)), (''2'', (0, 1)), (''3'', (0, 2)),
      (''4'', (1, 0)), (''5'', (1, 1)), (''6'', (1, 2)),
      (''7'', (2, 0)), (''8'', (2, 1)), (''9'', (2, 2))]"

definition ALLOWED_POSITIONS :: "string \<rightharpoonup> position" where
  "ALLOWED_POSITIONS = map_of allowed_positions"

definition validate_move :: "board \<Rightarrow> string \<Rightarrow> exn + position" where
  "validate_move b pos =
     (case ALLOWED_POSITIONS pos of
        None \<Rightarrow> Inl (InvalidPosition ''Position does not exist'')
      | Some rc \<Rightarrow>
          (case cell (grid b) rc of
             Inl e \<Rightarrow> Inl e
           | Inr v \<Rightarrow>
               if v \<noteq> '' '' then Inl (InvalidPosition ''Position is occupied'')
               else Inr rc))"

text \<open>
  One pass of the game loop of \<open>main\<close> for a typed text other than \<open>quit\<close> and \<open>ff\<close>:
  \<open>_get_player_move\<close> validates it, and \<open>Board.move\<close> is called only with the position
  that \<open>_validate_move\<close> returned. An \<open>InvalidPosition\<close> is displayed and the player is
  asked again, the board untouched.
\<close>

definition validated_move :: "board \<Rightarrow> string \<Rightarrow> exn option \<times> board" where
  "validated_move b s =
     (case validate_move b s of
        Inl e \<Rightarrow> (Some e, b)
      | Inr pos \<Rightarrow> move b pos)"

subsection \<open>Notions used to state the properties\<close>

text \<open>The shape of the grid of every \<open>Board\<close>: three rows of three cells. A board
  state also has a turn index that indexes the pair of players from the front.\<close>

definition wf_grid :: "grid \<Rightarrow> bool" where
  "wf_grid g = (length g = 3 \<and> (\<forall>r\<in>set g. length r = 3))"

definition wf_board :: "board \<Rightarrow> bool" where
  "wf_board b = (wf_grid (grid b) \<and> turn b \<in> {0, 1})"

text \<open>A position of the specification: both components in \<open>{0,1,2}\<close>.\<close>

definition in_range :: "position \<Rightarrow> bool" where
  "in_range pos = (fst pos \<in> {0, 1, 2} \<and> snd pos \<in> {0, 1, 2})"

text \<open>The index a Python index in \<open>-3 \<dots> 2\<close> stands for in a sequence of length 3.\<close>

definition norm3 :: "int \<Rightarrow> int" where
  "norm3 i = (if i < 0 then i + 3 else i)"

text \<open>Reading and writing a cell of a well-formed grid at a position in range.\<close>

definition at :: "grid \<Rightarrow> position \<Rightarrow> string" where
  "at g pos = g ! nat (fst pos) ! nat (snd pos)"

definition put :: "grid \<Rightarrow> position \<Rightarrow> string \<Rightarrow> grid" where
  "put g pos v = g[nat (fst pos) := (g ! nat (fst pos))[nat (snd pos) := v]]"

text \<open>The mark \<open>self._players[self._turn]\<close> of a board whose turn is 0 or 1.\<close>

definition current_mark :: "board \<Rightarrow> player" where
  "current_mark b = (if turn b = 0 then fst (players b) else snd (players b))"

text \<open>The board after \<open>move\<close> has written the mark and counted the square.\<close>

definition marked :: "board \<Rightarrow> position \<Rightarrow> board" where
  "marked b pos =
     b\<lparr>grid := put (grid b) pos (current_mark b), filled_squares := filled_squares b + 1\<rparr>"

text \<open>What \<open>move\<close> does after the check for a win: lines 100 to 102.\<close>

definition finish :: "board \<Rightarrow> exn option \<times> board" where
  "finish b2 =
     (if filled_squares b2 = 9 then (Some (GameOver ''Game Over!''), b2)
      else (None, b2\<lparr>turn := (if turn b2 = 0 then 1 else 0)\<rparr>))"

text \<open>A legal move: a position that \<open>_validate_move\<close> returns for some typed text, that
  is, a position of the table \<open>ALLOWED_POSITIONS\<close> whose cell is blank.\<close>

definition legal :: "board \<Rightarrow> position \<Rightarrow> bool" where
  "legal b pos = (pos \<in> snd ` set allowed_positions \<and> cell (grid b) pos = Inr '' '')"

text \<open>A sequence of legal moves after each of which the game continues: the loop of
  \<open>main\<close> calls \<open>move\<close> again only when the last call returned.\<close>

fun play :: "board \<Rightarrow> position list \<Rightarrow> board option" where
  "play b [] = Some b"
| "play b (p # ps) =
     (if legal b p then
        (case move b p of
           (None, b') \<Rightarrow> play b' ps
         | (Some e, b') \<Rightarrow> None)
      else None)"

text \<open>An axis all of whose cells hold the mark \<open>m\<close>.\<close>

definition line_of :: "grid \<Rightarrow> string \<Rightarrow> position set \<Rightarrow> bool" where
  "line_of g m axis = (\<forall>p\<in>axis. cell g p = Inr m)"

definition has_line :: "grid \<Rightarrow> string \<Rightarrow> bool" where
  "has_line g m = (\<exists>axis\<in>set AXES. line_of g m axis)"

text \<open>The nine positions of the board, the cells among them whose content satisfies a
  predicate, and the number of cells of the grid that are not blank.\<close>

definition positions :: "position set" where
  "positions = {0, 1, 2} \<times> {0, 1, 2}"

definition cells_with :: "grid \<Rightarrow> (string \<Rightarrow> bool) \<Rightarrow> position set" where
  "cells_with g P = Set.filter (\<lambda>p. case cell g p of Inl e \<Rightarrow> False | Inr v \<Rightarrow> P v) positions"

definition occupied :: "grid \<Rightarrow> nat" where
  "occupied g = card (cells_with g (\<lambda>v. v \<noteq> '' ''))"

text \<open>What holds of the board after \<open>n\<close> legal moves of a game that goes on: the counter and
  the cells agree; and, for two different marks, the first player holds \<open>(n + 1) div 2\<close>
  cells, the second \<open>n div 2\<close>, it is the turn of player \<open>n mod 2\<close>, and no axis is full of
  one mark.\<close>

definition count_inv :: "players \<Rightarrow> nat \<Rightarrow> board \<Rightarrow> bool" where
  "count_inv pl n b =
     (wf_board b \<and> players b = pl \<and> filled_squares b = int n \<and> occupied (grid b) = n)"

definition game_inv :: "players \<Rightarrow> nat \<Rightarrow> board \<Rightarrow> bool" where
  "game_inv pl n b =
     (wf_grid (grid b) \<and> players b = pl \<and> turn b = int (n mod 2) \<and> filled_squares b = int n \<and>
      card (cells_with (grid b) (\<lambda>v. v = fst pl)) = (n + 1) div 2 \<and>
      card (cells_with (grid b) (\<lambda>v. v = snd pl)) = n div 2 \<and>
      occupied (grid b) = n \<and>
      (\<forall>m. m \<noteq> '' '' \<longrightarrow> \<not> has_line (grid b) m))"

subsection \<open>The outcome of the specification, and its brute-force evaluation\<close>

text \<open>
  The specification returns an \<open>Outcome\<close> where the code returns or raises: a returning
  call is \<open>Continue\<close>, \<open>Win\<close> with the mark in its message is \<open>Win(Mark)\<close>, \<open>GameOver\<close> is
  \<open>Draw\<close>; the two errors are no outcome.
\<close>

datatype outcome = Continue | Won string | Draw

definition outcome_of :: "exn option \<Rightarrow> outcome option" where
  "outcome_of r =
     (case r of
        None \<Rightarrow> Some Continue
      | Some (Win m) \<Rightarrow> Some (Won m)
      | Some (GameOver msg) \<Rightarrow> Some Draw
      | Some IndexError \<Rightarrow> None
      | Some (InvalidPosition msg) \<Rightarrow> None)"

text \<open>
  The brute-force evaluation, written from the words of the specification and not from the
  code: the eight WinLines (three rows, three columns, two diagonals) are scanned on the
  whole board; a line all of whose three cells are occupied and hold the same mark gives
  \<open>Win\<close> of that mark; with no such line, nine occupied cells give \<open>Draw\<close>, fewer
  \<open>Continue\<close>. The occupied cells are counted on the grid.
\<close>

definition WIN_LINES :: "position list list" where
  "WIN_LINES =
     [[(0, 0), (0, 1), (0, 2)], [(1, 0), (1, 1), (1, 2)], [(2, 0), (2, 1), (2, 2)],
      [(0, 0), (1, 0), (2, 0)], [(0, 1), (1, 1), (2, 1)], [(0, 2), (1, 2), (2, 2)],
      [(0, 0), (1, 1), (2, 2)], [(2, 0), (1, 1), (0, 2)]]"

definition line_mark :: "grid \<Rightarrow> position list \<Rightarrow> string option" where
  "line_mark g line =
     (case line of
        [] \<Rightarrow> None
      | p # rest \<Rightarrow>
          (case cell g p of
             Inl e \<Rightarrow> None
           | Inr m \<Rightarrow>
               if m \<noteq> '' '' \<and> (\<forall>q\<in>set line. cell g q = Inr m) then Some m else None))"

definition brute_force :: "grid \<Rightarrow> outcome" where
  "brute_force g =
     (case List.map_filter (line_mark g) WIN_LINES of
        m # rest \<Rightarrow> Won m
      | [] \<Rightarrow> if occupied g = 9 then Draw else Continue)"

section \<open>Properties\<close>

subsection \<open>Indexing a well-formed grid\<close>

lemma in_range_iff:
  "in_range p = (0 \<le> fst p \<and> fst p \<le> 2 \<and> 0 \<le> snd p \<and> snd p \<le> 2)"
  unfolding in_range_def by (cases p) auto

lemma py_slot3:
  "length xs = 3 \<Longrightarrow> py_slot xs i = (if -3 \<le> i \<and> i \<le> 2 then Some (nat (norm3 i)) else None)"
  by (auto simp: py_slot_def norm3_def)

lemma py_index3:
  "length xs = 3 \<Longrightarrow>
   py_index xs i = (if -3 \<le> i \<and> i \<le> 2 then Inr (xs ! nat (norm3 i)) else Inl IndexError)"
  by (simp add: py_index_def py_slot3)

lemma py_setitem3:
  "length xs = 3 \<Longrightarrow>
   py_setitem xs i v = (if -3 \<le> i \<and> i \<le> 2 then Inr (xs[nat (norm3 i) := v]) else Inl IndexError)"
  by (simp add: py_setitem_def py_slot3)

lemma wf_grid_row: "wf_grid g \<Longrightarrow> k < 3 \<Longrightarrow> length (g ! k) = 3"
  by (simp add: wf_grid_def)

lemma norm3_lt: "-3 \<le> i \<Longrightarrow> i \<le> 2 \<Longrightarrow> nat (norm3 i) < 3"
  by (auto simp: norm3_def)

lemma in_range_norm3: "in_range (r, c) \<Longrightarrow> norm3 r = r \<and> norm3 c = c"
  by (auto simp: in_range_iff norm3_def)

lemma cell_wf:
  assumes "wf_grid g"
  shows "cell g (r, c) =
     (if -3 \<le> r \<and> r \<le> 2 \<and> -3 \<le> c \<and> c \<le> 2 then Inr (at g (norm3 r, norm3 c))
      else Inl IndexError)"
proof (cases "-3 \<le> r \<and> r \<le> 2")
  case True
  then have "length (g ! nat (norm3 r)) = 3"
    using assms by (simp add: wf_grid_row norm3_lt)
  then show ?thesis
    using True assms by (simp add: cell_def py_index3 wf_grid_def at_def)
next
  case False
  then show ?thesis
    using assms by (auto simp: cell_def py_index3 wf_grid_def)
qed

lemma set_cell_wf:
  assumes "wf_grid g"
  shows "set_cell g (r, c) v =
     (if -3 \<le> r \<and> r \<le> 2 \<and> -3 \<le> c \<and> c \<le> 2 then Inr (put g (norm3 r, norm3 c) v)
      else Inl IndexError)"
proof (cases "-3 \<le> r \<and> r \<le> 2")
  case True
  then have "length (g ! nat (norm3 r)) = 3"
    using assms by (simp add: wf_grid_row norm3_lt)
  then show ?thesis
    using True assms by (simp add: set_cell_def py_slot3 py_setitem3 wf_grid_def put_def)
next
  case False
  then show ?thesis
    using assms by (auto simp: set_cell_def py_slot3 wf_grid_def)
qed

lemma cell_in_range: "wf_grid g \<Longrightarrow> in_range p \<Longrightarrow> cell g p = Inr (at g p)"
  by (cases p) (simp add: cell_wf in_range_iff norm3_def)

lemma wf_grid_put: "wf_grid g \<Longrightarrow> wf_grid (put g pos v)"
proof -
  assume wf: "wf_grid g"
  define k where "k = nat (fst pos)"
  define row where "row = (g ! k)[nat (snd pos) := v]"
  have "length r = 3" if "r \<in> set (g[k := row])" for r
  proof (cases "k < length g")
    case True
    then have "length row = 3" using wf by (simp add: row_def wf_grid_def)
    moreover have "r = row \<or> r \<in> set g"
      using that set_update_subset_insert[of g k row] by auto
    ultimately show ?thesis using wf by (auto simp: wf_grid_def)
  next
    case False
    then show ?thesis using that wf by (simp add: wf_grid_def list_update_beyond)
  qed
  then show ?thesis using wf by (simp add: wf_grid_def put_def k_def row_def)
qed

lemma at_put:
  "wf_grid g \<Longrightarrow> in_range p \<Longrightarrow> in_range q \<Longrightarrow> at (put g p v) q = (if q = p then v else at g q)"
proof -
  assume wf: "wf_grid g" and p: "in_range p" and q: "in_range q"
  have lp: "nat (fst p) < length g" and lq: "nat (fst q) < length g"
    using wf p q by (auto simp: wf_grid_def in_range_iff)
  have cp: "nat (snd p) < length (g ! nat (fst p))"
    using wf_grid_row[OF wf, of "nat (fst p)"] p by (auto simp: in_range_iff)
  have eq: "(q = p) = (nat (fst q) = nat (fst p) \<and> nat (snd q) = nat (snd p))"
    using p q by (auto simp: in_range_iff prod_eq_iff)
  show ?thesis
    unfolding at_def put_def eq using lp lq cp by (simp add: nth_list_update)
qed

lemma display_board_wf: "wf_grid (grid b) \<Longrightarrow> display_board b = Inr ()"
  by (auto simp: display_board_def cell_wf)

subsection \<open>What \<open>move\<close> does on a board state\<close>

lemma axes_in_range: "axis \<in> set AXES \<Longrightarrow> p \<in> axis \<Longrightarrow> in_range p"
  by (auto simp: AXES_def in_range_def)

lemma no_axis_negative: "r < 0 \<or> c < 0 \<Longrightarrow> filter (\<lambda>axis. (r, c) \<in> axis) AXES = []"
  by (auto simp: AXES_def)

lemma players_index:
  "turn b \<in> {0, 1} \<Longrightarrow> py_index [fst (players b), snd (players b)] (turn b) = Inr (current_mark b)"
  by (auto simp: py_index_def py_slot_def current_mark_def)

lemma move_out_of_bounds:
  assumes "wf_board b" and "r < -3 \<or> 2 < r \<or> c < -3 \<or> 2 < c"
  shows "move b (r, c) = (Some IndexError, b)"
  using assms by (auto simp: move_def wf_board_def players_index set_cell_wf)

lemma move_wf:
  assumes "wf_board b" and "-3 \<le> r" "r \<le> 2" "-3 \<le> c" "c \<le> 2"
  shows "move b (r, c) =
     (let b2 = marked b (norm3 r, norm3 c) in
      if filled_squares b2 \<ge> 5 then
        (case check_win b2 (r, c) of
           Inl e \<Rightarrow> (Some e, b2)
         | Inr win \<Rightarrow> if win then (Some (Win (current_mark b)), b2) else finish b2)
      else finish b2)"
proof -
  have g: "set_cell (grid b) (r, c) (current_mark b) = Inr (put (grid b) (norm3 r, norm3 c) (current_mark b))"
    using assms by (simp add: set_cell_wf wf_board_def)
  have d: "display_board (b\<lparr>grid := put (grid b) (norm3 r, norm3 c) (current_mark b)\<rparr>) = Inr ()"
    using assms by (simp add: display_board_wf wf_grid_put wf_board_def)
  show ?thesis
    using assms(1) unfolding move_def
    by (simp add: players_index wf_board_def g d marked_def finish_def Let_def
          split: sum.splits)
qed

lemma reset_grid: "grid (reset_board b) = [['' '', '' '', '' ''], ['' '', '' '', '' ''], ['' '', '' '', '' '']]"
  by (simp add: reset_board_def numeral_3_eq_3 upt_rec)

subsection \<open>Legal moves and the table of positions\<close>

lemma allowed_in_range: "(pos \<in> snd ` set allowed_positions) = in_range pos"
  by (cases pos) (auto simp: allowed_positions_def in_range_def)

lemma ALLOWED_in_range: "ALLOWED_POSITIONS s = Some pos \<Longrightarrow> in_range pos"
  using allowed_in_range[of pos] map_of_SomeD[of allowed_positions s pos]
  by (force simp: ALLOWED_POSITIONS_def)

lemma in_range_ALLOWED: "in_range pos \<Longrightarrow> \<exists>s. ALLOWED_POSITIONS s = Some pos"
proof -
  assume "in_range pos"
  then have "pos \<in> snd ` set allowed_positions" by (simp add: allowed_in_range)
  then obtain s where "(s, pos) \<in> set allowed_positions" by force
  moreover have "distinct (map fst allowed_positions)" by (simp add: allowed_positions_def)
  ultimately show ?thesis by (auto simp: ALLOWED_POSITIONS_def)
qed

lemma legal_validate: "legal b pos = (\<exists>s. validate_move b s = Inr pos)"
proof
  assume l: "legal b pos"
  then have "in_range pos" by (simp add: legal_def allowed_in_range)
  then obtain s where "ALLOWED_POSITIONS s = Some pos"
    using in_range_ALLOWED[of pos] by blast
  then have "validate_move b s = Inr pos" using l by (simp add: validate_move_def legal_def)
  then show "\<exists>s. validate_move b s = Inr pos" ..
next
  assume "\<exists>s. validate_move b s = Inr pos"
  then obtain s where s: "validate_move b s = Inr pos" ..
  then have a: "ALLOWED_POSITIONS s = Some pos"
    by (auto simp: validate_move_def split: option.splits sum.splits if_splits)
  then have "cell (grid b) pos = Inr '' ''"
    using s by (auto simp: validate_move_def split: option.splits sum.splits if_splits)
  then show "legal b pos" using ALLOWED_in_range[OF a] by (simp add: legal_def allowed_in_range)
qed

subsection \<open>Rejected moves\<close>

text \<open>
  Claim C3. For every board state and every position in range whose cell is not blank, the
  typed text that selects the position is rejected by \<open>_validate_move\<close> with
  \<open>InvalidPosition\<close>, message \<open>Position is occupied\<close>; \<open>Board.move\<close> is not called, and
  the whole board (grid, turn index, count) is as before.
\<close>

theorem occupied_rejected:
  assumes "wf_grid (grid b)" and "in_range pos" and "cell (grid b) pos \<noteq> Inr '' ''"
  shows "(\<exists>s. ALLOWED_POSITIONS s = Some pos) \<and>
         (\<forall>s. ALLOWED_POSITIONS s = Some pos \<longrightarrow>
            validate_move b s = Inl (InvalidPosition ''Position is occupied'') \<and>
            validated_move b s = (Some (InvalidPosition ''Position is occupied''), b))"
proof -
  have "cell (grid b) pos = Inr (at (grid b) pos)"
    using assms by (simp add: cell_in_range)
  then have "validate_move b s = Inl (InvalidPosition ''Position is occupied'')"
    if "ALLOWED_POSITIONS s = Some pos" for s
    using that assms(3) by (simp add: validate_move_def)
  then show ?thesis
    using in_range_ALLOWED[OF assms(2)] by (simp add: validated_move_def)
qed

text \<open>The hypotheses of C3 hold after a first move to the centre, for the text \<open>5\<close>.\<close>

theorem occupied_rejected_witness:
  "validated_move (snd (move (init_board (''X'', ''O'')) (1, 1))) ''5''
     = (Some (InvalidPosition ''Position is occupied''), snd (move (init_board (''X'', ''O'')) (1, 1)))"
proof -
  let ?b = "snd (move (init_board (''X'', ''O'')) (1, 1))"
  have g: "grid ?b = [['' '', '' '', '' ''], ['' '', ''X'', '' ''], ['' '', '' '', '' '']]"
    by code_simp
  have 1: "wf_grid (grid ?b)" unfolding g by (simp add: wf_grid_def)
  have 2: "in_range (1, 1)" by (simp add: in_range_def)
  have 3: "cell (grid ?b) (1, 1) \<noteq> Inr '' ''" unfolding g by code_simp
  have 4: "ALLOWED_POSITIONS ''5'' = Some (1, 1)" by code_simp
  show ?thesis using occupied_rejected[OF 1 2 3] 4 by blast
qed


lemma check_win_negative: "r < 0 \<or> c < 0 \<Longrightarrow> check_win b (r, c) = Inr False"
  by (simp add: check_win_def no_axis_negative)

lemma finish_cases: "fst (finish b2) \<in> {None, Some (GameOver ''Game Over!'')} \<and> grid (snd (finish b2)) = grid b2"
  by (simp add: finish_def)

text \<open>
  Claim C10. \<open>Board.move\<close> checks no bounds itself. A position whose components are each
  in \<open>{-3,-2,-1}\<close> raises no \<open>IndexError\<close>: the call returns, or raises \<open>GameOver\<close> when
  it fills the ninth square, and the mark of the current player is written into the cell in
  range that the negative indices stand for, \<open>(row + 3, col + 3)\<close>. A component outside
  \<open>{-3,\<dots>,2}\<close> raises the bare \<open>IndexError\<close> of the list, and the board is as before.
\<close>

theorem move_has_no_bounds_check:
  assumes "wf_board b"
  shows "(row \<in> {-3, -2, -1} \<and> col \<in> {-3, -2, -1} \<longrightarrow>
            fst (move b (row, col)) \<in> {None, Some (GameOver ''Game Over!'')} \<and>
            in_range (row + 3, col + 3) \<and>
            grid (snd (move b (row, col))) = put (grid b) (row + 3, col + 3) (current_mark b) \<and>
            cell (grid (snd (move b (row, col)))) (row + 3, col + 3) = Inr (current_mark b))
       \<and> (row < -3 \<or> 2 < row \<or> col < -3 \<or> 2 < col \<longrightarrow>
            move b (row, col) = (Some IndexError, b))"
proof (intro conjI impI)
  assume neg: "row \<in> {-3, -2, -1} \<and> col \<in> {-3, -2, -1}"
  then have bounds: "-3 \<le> row" "row \<le> 2" "-3 \<le> col" "col \<le> 2" "row < 0" by auto
  have n: "norm3 row = row + 3" "norm3 col = col + 3" using neg by (auto simp: norm3_def)
  show r: "in_range (row + 3, col + 3)" using neg by (auto simp: in_range_iff)
  have m: "move b (row, col) = finish (marked b (row + 3, col + 3))"
    using bounds(5) by (simp add: move_wf[OF assms bounds(1-4)] n check_win_negative Let_def)
  show "fst (move b (row, col)) \<in> {None, Some (GameOver ''Game Over!'')}"
    unfolding m using finish_cases by blast
  show g: "grid (snd (move b (row, col))) = put (grid b) (row + 3, col + 3) (current_mark b)"
    unfolding m by (simp add: finish_cases marked_def)
  have "wf_grid (grid b)" using assms by (simp add: wf_board_def)
  then show "cell (grid (snd (move b (row, col)))) (row + 3, col + 3) = Inr (current_mark b)"
    unfolding g using r by (simp add: cell_in_range wf_grid_put at_put)
next
  assume "row < -3 \<or> 2 < row \<or> col < -3 \<or> 2 < col"
  then show "move b (row, col) = (Some IndexError, b)"
    using assms by (rule move_out_of_bounds[rotated])
qed

lemma wf_init: "wf_board (init_board ps)"
  by (simp add: wf_board_def wf_grid_def init_board_def reset_grid) (simp add: reset_board_def)

text \<open>On a fresh board, \<open>(-1,-1)\<close> writes the cell \<open>(2,2)\<close>; \<open>(0,3)\<close> and \<open>(-4,0)\<close> raise
  \<open>IndexError\<close>.\<close>

theorem move_has_no_bounds_check_witness:
  "fst (move (init_board (''X'', ''O'')) (-1, -1)) = None
   \<and> cell (grid (snd (move (init_board (''X'', ''O'')) (-1, -1)))) (2, 2) = Inr ''X''
   \<and> move (init_board (''X'', ''O'')) (0, 3) = (Some IndexError, init_board (''X'', ''O''))
   \<and> move (init_board (''X'', ''O'')) (-4, 0) = (Some IndexError, init_board (''X'', ''O''))"
proof -
  let ?b = "init_board (''X'', ''O'')"
  have w: "wf_board ?b" by (rule wf_init)
  have c: "current_mark ?b = ''X''" by code_simp
  have "fst (move ?b (-1, -1)) \<in> {None, Some (GameOver ''Game Over!'')}"
    using move_has_no_bounds_check[OF w, of "-1" "-1"] by simp
  moreover have "fst (move ?b (-1, -1)) \<noteq> Some (GameOver ''Game Over!'')" by code_simp
  ultimately have 1: "fst (move ?b (-1, -1)) = None" by blast
  have "cell (grid (snd (move ?b (-1, -1)))) (-1 + 3, -1 + 3) = Inr (current_mark ?b)"
    using move_has_no_bounds_check[OF w, of "-1" "-1"] by blast
  then have 2: "cell (grid (snd (move ?b (-1, -1)))) (2, 2) = Inr ''X''"
    by (simp add: c)
  have 3: "move ?b (0, 3) = (Some IndexError, ?b)"
    using move_has_no_bounds_check[OF w, of 0 3] by simp
  have 4: "move ?b (-4, 0) = (Some IndexError, ?b)"
    using move_has_no_bounds_check[OF w, of "-4" 0] by simp
  show ?thesis using 1 2 3 4 by blast
qed




subsection \<open>Counting cells, and what \<open>_check_win\<close> computes\<close>

lemma positions_in_range: "(p \<in> positions) = in_range p"
  by (cases p) (auto simp: positions_def in_range_def)

lemma finite_positions: "finite positions"
  by (simp add: positions_def)

lemma card_positions: "card positions = 9"
  by (simp add: positions_def card_cartesian_product)

lemma cells_with_wf: "wf_grid g \<Longrightarrow> cells_with g P = {p. in_range p \<and> P (at g p)}"
  by (auto simp: cells_with_def positions_in_range cell_in_range)

lemma finite_cells_with: "finite (cells_with g P)"
  using finite_positions by (simp add: cells_with_def)

lemma cells_with_put:
  assumes "wf_grid g" and "in_range p"
  shows "cells_with (put g p v) P = (cells_with g P - {p}) \<union> (if P v then {p} else {})"
  using assms by (auto simp: cells_with_wf wf_grid_put at_put split: if_splits)

lemma card_cells_with_put_new:
  assumes "wf_grid g" and "in_range p" and "\<not> P (at g p)" and "P v"
  shows "card (cells_with (put g p v) P) = Suc (card (cells_with g P))"
proof -
  have "p \<notin> cells_with g P" using assms by (simp add: cells_with_wf)
  then show ?thesis
    using assms finite_cells_with[of g P] by (simp add: cells_with_put)
qed

lemma card_cells_with_put_same:
  assumes "wf_grid g" and "in_range p" and "\<not> P (at g p)" and "\<not> P v"
  shows "cells_with (put g p v) P = cells_with g P"
  using assms by (auto simp: cells_with_wf wf_grid_put at_put split: if_splits)

lemma axis_card: "axis \<in> set AXES \<Longrightarrow> finite axis \<and> card axis = 3"
  by (auto simp: AXES_def)

lemma line_of_wf:
  "wf_grid g \<Longrightarrow> axis \<in> set AXES \<Longrightarrow> line_of g m axis = (\<forall>p\<in>axis. at g p = m)"
  using axes_in_range[of axis] by (auto simp: line_of_def cell_in_range)

lemma check_axis_eq:
  assumes "\<not> (\<exists>x\<in>axis. isl (cell g x))"
  shows "check_axis g axis =
     Inr (\<not> card {x \<in> axis. cell g x \<noteq> Inr '' ''} < 3 \<and>
          \<not> 1 < card ((\<lambda>x. cell g x) ` {x \<in> axis. cell g x \<noteq> Inr '' ''}))"
proof -
  define A where "A = (card {x \<in> axis. cell g x \<noteq> Inr '' ''} < 3)"
  define B where "B = (1 < card ((\<lambda>x. cell g x) ` {x \<in> axis. cell g x \<noteq> Inr '' ''}))"
  have "check_axis g axis = (if A then Inr False else if B then Inr False else Inr True)"
    unfolding check_axis_def Let_def Set.filter_eq A_def B_def
    by (simp only: assms if_False)
  then show ?thesis unfolding A_def[symmetric] B_def[symmetric] by (cases A; cases B; simp)
qed

lemma check_axis_wf:
  assumes wf: "wf_grid g" and ax: "axis \<in> set AXES"
  shows "check_axis g axis = Inr (\<exists>m. m \<noteq> '' '' \<and> line_of g m axis)"
proof -
  have rd: "cell g x = Inr (at g x)" if "x \<in> axis" for x
    using that wf ax by (simp add: cell_in_range axes_in_range)
  have fin: "finite axis" and c3: "card axis = 3" using axis_card[OF ax] by auto
  define vals where "vals = {x \<in> axis. cell g x \<noteq> Inr '' ''}"
  have vals: "vals = {x \<in> axis. at g x \<noteq> '' ''}"
    using rd by (auto simp: vals_def)
  have sub: "vals \<subseteq> axis" by (auto simp: vals)
  have full: "(card vals < 3) = (vals \<noteq> axis)"
    using sub fin c3 card_subset_eq[of axis vals] card_mono[of axis vals]
    by (metis le_neq_implies_less nat_less_le)
  have img: "(card ((\<lambda>x. cell g x) ` axis) > 1) = (\<not> (\<forall>a\<in>axis. \<forall>b\<in>axis. at g a = at g b))"
  proof -
    have "(card ((\<lambda>x. cell g x) ` axis) \<le> Suc 0) = (\<forall>a\<in>axis. \<forall>b\<in>axis. cell g a = cell g b)"
      using fin by (simp add: card_le_Suc0_iff_eq)
    moreover have "(\<forall>a\<in>axis. \<forall>b\<in>axis. cell g a = cell g b) = (\<forall>a\<in>axis. \<forall>b\<in>axis. at g a = at g b)"
      by (simp add: rd)
    moreover have "(card ((\<lambda>x. cell g x) ` axis) > 1) = (\<not> card ((\<lambda>x. cell g x) ` axis) \<le> Suc 0)"
      by arith
    ultimately show ?thesis by (simp only:)
  qed
  have ne: "axis \<noteq> {}" using c3 by auto
  have nofail: "\<not> (\<exists>x\<in>axis. isl (cell g x))" using rd by auto
  have ce: "check_axis g axis = Inr (\<not> card vals < 3 \<and> \<not> 1 < card ((\<lambda>x. cell g x) ` vals))"
    unfolding vals_def by (rule check_axis_eq[OF nofail])
  have "(\<not> card vals < 3 \<and> \<not> 1 < card ((\<lambda>x. cell g x) ` vals))
          = (\<exists>m. m \<noteq> '' '' \<and> (\<forall>p\<in>axis. at g p = m))"
  proof (cases "vals = axis")
    case True
    have allocc: "at g x \<noteq> '' ''" if "x \<in> axis" for x
    proof -
      from that True have "x \<in> vals" by (simp only:)
      then show ?thesis unfolding vals by blast
    qed
    have l: "(\<not> card vals < 3 \<and> \<not> 1 < card ((\<lambda>x. cell g x) ` vals))
               = (\<forall>a\<in>axis. \<forall>b\<in>axis. at g a = at g b)"
      unfolding full unfolding True img by blast
    have "(\<forall>a\<in>axis. \<forall>b\<in>axis. at g a = at g b) = (\<exists>m. m \<noteq> '' '' \<and> (\<forall>p\<in>axis. at g p = m))"
    proof
      assume eq: "\<forall>a\<in>axis. \<forall>b\<in>axis. at g a = at g b"
      from ne obtain x where x: "x \<in> axis" by blast
      have "at g x \<noteq> '' ''" using allocc x by blast
      moreover have "\<forall>p\<in>axis. at g p = at g x" using eq x by blast
      ultimately show "\<exists>m. m \<noteq> '' '' \<and> (\<forall>p\<in>axis. at g p = m)" by blast
    next
      assume "\<exists>m. m \<noteq> '' '' \<and> (\<forall>p\<in>axis. at g p = m)"
      then show "\<forall>a\<in>axis. \<forall>b\<in>axis. at g a = at g b" by metis
    qed
    with l show ?thesis by (simp only:)
  next
    case False
    with sub obtain x where x: "x \<in> axis" "x \<notin> vals" by blast
    then have "at g x = '' ''" unfolding vals by blast
    then have "\<not> (\<exists>m. m \<noteq> '' '' \<and> (\<forall>p\<in>axis. at g p = m))"
      using x(1) by metis
    moreover have "card vals < 3" using full False by blast
    ultimately show ?thesis by blast
  qed
  then show ?thesis unfolding ce line_of_wf[OF wf ax] by (simp only:)
qed

lemma check_axes_wf:
  assumes "wf_grid g"
  shows "set axs \<subseteq> set AXES \<Longrightarrow>
         check_axes g axs = Inr (\<exists>axis\<in>set axs. \<exists>m. m \<noteq> '' '' \<and> line_of g m axis)"
proof (induction axs)
  case Nil
  then show ?case by simp
next
  case (Cons axis rest)
  then show ?case using assms
    by (auto simp: check_axis_wf split: bool.splits)
qed

lemma check_win_wf:
  "wf_grid (grid b) \<Longrightarrow>
   check_win b pos = Inr (\<exists>axis\<in>set AXES. pos \<in> axis \<and> (\<exists>m. m \<noteq> '' '' \<and> line_of (grid b) m axis))"
  by (auto simp: check_win_def check_axes_wf)

lemma legal_in_range: "legal b p \<Longrightarrow> in_range p"
  by (simp add: legal_def allowed_in_range)

lemma legal_blank: "wf_grid (grid b) \<Longrightarrow> legal b p \<Longrightarrow> at (grid b) p = '' ''"
  using cell_in_range[of "grid b" p] by (simp add: legal_def allowed_in_range)

lemma move_legal:
  assumes "wf_board b" and "legal b p"
  shows "move b p =
     (if 5 \<le> filled_squares b + 1 \<and>
         (\<exists>axis\<in>set AXES. p \<in> axis \<and> (\<exists>m. m \<noteq> '' '' \<and> line_of (grid (marked b p)) m axis))
      then (Some (Win (current_mark b)), marked b p) else finish (marked b p))"
proof -
  obtain r c where p: "p = (r, c)" by (cases p)
  have ir: "in_range (r, c)" using assms(2) p legal_in_range by blast
  then have b: "-3 \<le> r" "r \<le> 2" "-3 \<le> c" "c \<le> 2" by (auto simp: in_range_iff)
  have n: "norm3 r = r" "norm3 c = c" using in_range_norm3[OF ir] by auto
  have wf2: "wf_grid (grid (marked b p))"
    using assms(1) by (simp add: marked_def wf_grid_put wf_board_def)
  have f: "filled_squares (marked b p) = filled_squares b + 1" by (simp add: marked_def)
  define W where "W = (\<exists>axis\<in>set AXES. (r, c) \<in> axis \<and>
     (\<exists>m. m \<noteq> '' '' \<and> line_of (grid (marked b (r, c))) m axis))"
  have cw: "check_win (marked b (r, c)) (r, c) = Inr W"
    unfolding W_def by (rule check_win_wf[OF wf2[unfolded p]])
  show ?thesis
    unfolding p move_wf[OF assms(1) b] n Let_def cw W_def[symmetric]
    unfolding f[unfolded p] by (cases W) simp_all
qed

lemma play_invariant:
  assumes step: "\<And>n b p b'. I n b \<Longrightarrow> legal b p \<Longrightarrow> move b p = (None, b') \<Longrightarrow> I (Suc n) b'"
  shows "I k b0 \<Longrightarrow> play b0 ps = Some b \<Longrightarrow> I (k + length ps) b"
proof (induction ps arbitrary: b0 k)
  case Nil
  then show ?case by simp
next
  case (Cons p ps)
  from Cons.prems(2) have l: "legal b0 p"
    by (simp split: if_splits)
  from Cons.prems(2) l obtain b1 where m: "move b0 p = (None, b1)" and r: "play b1 ps = Some b"
    by (cases "move b0 p") (auto split: option.splits)
  have "I (Suc k) b1" using step[OF Cons.prems(1) l m] .
  from Cons.IH[OF this r] show ?case by simp
qed

lemma wf_reset: "wf_grid (grid (reset_board b0))"
  by (simp add: reset_grid wf_grid_def)

lemma at_reset: "in_range p \<Longrightarrow> at (grid (reset_board b0)) p = '' ''"
  by (cases p) (auto simp: in_range_def at_def reset_grid)

lemma cells_with_reset: "\<not> P '' '' \<Longrightarrow> cells_with (grid (reset_board b0)) P = {}"
  by (auto simp: cells_with_wf[OF wf_reset] at_reset)

lemma no_line_reset: "m \<noteq> '' '' \<Longrightarrow> \<not> has_line (grid (reset_board b0)) m"
proof
  assume m: "m \<noteq> '' ''" and "has_line (grid (reset_board b0)) m"
  then obtain axis where ax: "axis \<in> set AXES" and l: "line_of (grid (reset_board b0)) m axis"
    by (auto simp: has_line_def)
  have "axis \<noteq> {}" using axis_card[OF ax] by auto
  then obtain q where q: "q \<in> axis" by blast
  then have "at (grid (reset_board b0)) q = m"
    using l by (simp add: line_of_wf[OF wf_reset ax])
  then show False using m at_reset[OF axes_in_range[OF ax q]] by simp
qed

lemma game_inv_reset:
  assumes "fst (players b0) \<noteq> '' ''" and "snd (players b0) \<noteq> '' ''"
  shows "game_inv (players b0) 0 (reset_board b0)"
  using assms
  by (simp add: game_inv_def wf_reset cells_with_reset occupied_def no_line_reset)
     (simp add: reset_board_def)

lemma occupied_le: "occupied g \<le> 9"
proof -
  have "cells_with g (\<lambda>v. v \<noteq> '' '') \<subseteq> positions" by (auto simp: cells_with_def)
  then have "card (cells_with g (\<lambda>v. v \<noteq> '' '')) \<le> card positions"
    using finite_positions by (rule card_mono[rotated])
  then show ?thesis by (simp add: occupied_def card_positions)
qed

lemma game_step:
  assumes d: "fst pl \<noteq> snd pl" and n1: "fst pl \<noteq> '' ''" and n2: "snd pl \<noteq> '' ''"
    and inv: "game_inv pl n b" and l: "legal b p"
  shows "move b p =
           (if \<exists>m. m \<noteq> '' '' \<and> has_line (grid (marked b p)) m
            then (Some (Win (current_mark b)), marked b p) else finish (marked b p))"
    and "\<forall>m. m \<noteq> '' '' \<and> has_line (grid (marked b p)) m \<longrightarrow> m = current_mark b"
    and "occupied (grid (marked b p)) = Suc n"
    and "filled_squares (marked b p) = int (Suc n)"
    and "wf_grid (grid (marked b p))"
    and "current_mark b = (if even n then fst pl else snd pl)"
    and "fst (move b p) = None \<longrightarrow> game_inv pl (Suc n) (snd (move b p))"
proof -
  from inv have wf: "wf_grid (grid b)" and pl: "players b = pl" and t: "turn b = int (n mod 2)"
    and f: "filled_squares b = int n"
    and c1: "card (cells_with (grid b) (\<lambda>v. v = fst pl)) = (n + 1) div 2"
    and c2: "card (cells_with (grid b) (\<lambda>v. v = snd pl)) = n div 2"
    and occ: "occupied (grid b) = n"
    and nl: "\<And>m. m \<noteq> '' '' \<Longrightarrow> \<not> has_line (grid b) m"
    by (simp_all add: game_inv_def)
  have "n mod 2 = 0 \<or> n mod 2 = 1" by presburger
  then have wb: "wf_board b" using wf t by (auto simp: wf_board_def)
  have ir: "in_range p" using l by (rule legal_in_range)
  have bl: "at (grid b) p = '' ''" using wf l by (rule legal_blank)
  define cm where "cm = current_mark b"
  show cm: "current_mark b = (if even n then fst pl else snd pl)"
    using t pl by (auto simp: current_mark_def)
  then have cm': "cm = (if even n then fst pl else snd pl)" by (simp add: cm_def)
  have cmn: "cm \<noteq> '' ''" using cm' n1 n2 by simp
  define g2 where "g2 = put (grid b) p cm"
  have gm: "grid (marked b p) = g2" by (simp add: marked_def g2_def cm_def)
  have wf2: "wf_grid g2" using wf by (simp add: g2_def wf_grid_put)
  show "wf_grid (grid (marked b p))" using wf2 gm by simp
  have at2: "at g2 q = (if q = p then cm else at (grid b) q)" if "in_range q" for q
    using wf ir that by (simp add: g2_def at_put)
  show f2: "filled_squares (marked b p) = int (Suc n)" using f by (simp add: marked_def)
  have "card (cells_with g2 (\<lambda>v. v \<noteq> '' '')) = Suc (card (cells_with (grid b) (\<lambda>v. v \<noteq> '' '')))"
    unfolding g2_def using wf ir bl cmn by (intro card_cells_with_put_new) simp_all
  then show o2: "occupied (grid (marked b p)) = Suc n"
    using occ by (simp add: gm occupied_def)
  have ccm: "card (cells_with g2 (\<lambda>v. v = cm)) = Suc (card (cells_with (grid b) (\<lambda>v. v = cm)))"
    unfolding g2_def using wf ir bl cmn by (intro card_cells_with_put_new) simp_all
  have cother: "cells_with g2 (\<lambda>v. v = x) = cells_with (grid b) (\<lambda>v. v = x)"
    if "x \<noteq> cm" "x \<noteq> '' ''" for x
    unfolding g2_def using wf ir bl that by (intro card_cells_with_put_same) simp_all
  have c1': "card (cells_with g2 (\<lambda>v. v = fst pl)) = (Suc n + 1) div 2"
  proof (cases "even n")
    case True
    then have "cm = fst pl" using cm' by simp
    then show ?thesis using ccm c1 True by simp
  next
    case False
    then have "fst pl \<noteq> cm" using cm' d by simp
    then show ?thesis using cother[of "fst pl"] n1 c1 False by (simp; presburger)
  qed
  have c2': "card (cells_with g2 (\<lambda>v. v = snd pl)) = Suc n div 2"
  proof (cases "even n")
    case True
    then have "snd pl \<noteq> cm" using cm' d by simp
    then show ?thesis using cother[of "snd pl"] n2 c2 True by simp
  next
    case False
    then have "cm = snd pl" using cm' by simp
    then show ?thesis using ccm c2 False by (simp; presburger)
  qed
  have through: "p \<in> axis \<and> m = cm"
    if ax: "axis \<in> set AXES" and m: "m \<noteq> '' ''" and ln: "line_of g2 m axis" for axis m
  proof -
    have all: "\<forall>q\<in>axis. at g2 q = m" using ln by (simp add: line_of_wf[OF wf2 ax])
    have pin: "p \<in> axis"
    proof (rule ccontr)
      assume np: "p \<notin> axis"
      have "at (grid b) q = m" if "q \<in> axis" for q
      proof -
        have "q \<noteq> p" using that np by blast
        then show ?thesis using all that at2[OF axes_in_range[OF ax that]] by simp
      qed
      then have "line_of (grid b) m axis" by (simp add: line_of_wf[OF wf ax])
      then have "has_line (grid b) m" using ax by (auto simp: has_line_def)
      then show False using nl[OF m] by blast
    qed
    then have "at g2 p = m" using all by blast
    then show ?thesis using pin at2[OF ir] by simp
  qed
  show only: "\<forall>m. m \<noteq> '' '' \<and> has_line (grid (marked b p)) m \<longrightarrow> m = current_mark b"
    unfolding gm cm_def[symmetric] using through by (auto simp: has_line_def)
  have five: "5 \<le> filled_squares b + 1"
    if ax: "axis \<in> set AXES" and ln: "line_of g2 cm axis" for axis
  proof -
    have "axis \<subseteq> cells_with g2 (\<lambda>v. v = cm)"
      using ln axes_in_range[OF ax] by (auto simp: line_of_wf[OF wf2 ax] cells_with_wf[OF wf2])
    then have "card axis \<le> card (cells_with g2 (\<lambda>v. v = cm))"
      using finite_cells_with by (rule card_mono[rotated])
    then have "3 \<le> Suc (card (cells_with (grid b) (\<lambda>v. v = cm)))"
      using axis_card[OF ax] ccm by simp
    moreover have "card (cells_with (grid b) (\<lambda>v. v = cm)) = (if even n then (n + 1) div 2 else n div 2)"
      using cm' c1 c2 by simp
    ultimately have "4 \<le> n" by (cases "even n") (simp; presburger)+
    then show ?thesis using f by simp
  qed
  have W: "(5 \<le> filled_squares b + 1 \<and>
            (\<exists>axis\<in>set AXES. p \<in> axis \<and> (\<exists>m. m \<noteq> '' '' \<and> line_of (grid (marked b p)) m axis)))
         = (\<exists>m. m \<noteq> '' '' \<and> has_line (grid (marked b p)) m)"
  proof
    assume "5 \<le> filled_squares b + 1 \<and>
            (\<exists>axis\<in>set AXES. p \<in> axis \<and> (\<exists>m. m \<noteq> '' '' \<and> line_of (grid (marked b p)) m axis))"
    then show "\<exists>m. m \<noteq> '' '' \<and> has_line (grid (marked b p)) m"
      by (auto simp: has_line_def)
  next
    assume "\<exists>m. m \<noteq> '' '' \<and> has_line (grid (marked b p)) m"
    then obtain m axis where m: "m \<noteq> '' ''" and ax: "axis \<in> set AXES" and ln: "line_of g2 m axis"
      unfolding gm by (auto simp: has_line_def)
    from through[OF ax m ln] have pin: "p \<in> axis" and mc: "m = cm" by auto
    from five[OF ax ln[unfolded mc]] have "5 \<le> filled_squares b + 1" .
    then show "5 \<le> filled_squares b + 1 \<and>
            (\<exists>axis\<in>set AXES. p \<in> axis \<and> (\<exists>m. m \<noteq> '' '' \<and> line_of (grid (marked b p)) m axis))"
      using ax pin m ln unfolding gm by blast
  qed
  show mv: "move b p =
           (if \<exists>m. m \<noteq> '' '' \<and> has_line (grid (marked b p)) m
            then (Some (Win (current_mark b)), marked b p) else finish (marked b p))"
    unfolding move_legal[OF wb l] W ..
  show "fst (move b p) = None \<longrightarrow> game_inv pl (Suc n) (snd (move b p))"
  proof
    assume none: "fst (move b p) = None"
    then have nol: "\<not> (\<exists>m. m \<noteq> '' '' \<and> has_line (grid (marked b p)) m)"
      unfolding mv by (auto split: if_splits)
    then have mf: "move b p = finish (marked b p)" unfolding mv by (simp only: if_False)
    then have n9: "filled_squares (marked b p) \<noteq> 9"
      using none by (auto simp: finish_def split: if_splits)
    then have b': "snd (move b p) = (marked b p)\<lparr>turn := (if turn (marked b p) = 0 then 1 else 0)\<rparr>"
      unfolding mf by (simp add: finish_def)
    have tm: "turn (marked b p) = int (n mod 2)" using t by (simp add: marked_def)
    have pm: "players (marked b p) = pl" using pl by (simp add: marked_def)
    have tn: "(if int (n mod 2) = 0 then 1 else 0) = int (Suc n mod 2)" by presburger
    show "game_inv pl (Suc n) (snd (move b p))"
      unfolding b' game_inv_def
      using wf2 gm pm tm tn f2 c1' c2' o2 nol by auto
  qed
qed

lemma move_cases:
  "(\<exists>e. move b p = (Some e, b))
   \<or> (\<exists>e g. move b p = (Some e, b\<lparr>grid := g\<rparr>))
   \<or> (\<exists>e g. move b p = (Some e, b\<lparr>grid := g, filled_squares := filled_squares b + 1\<rparr>))
   \<or> (\<exists>g. move b p = (None, b\<lparr>grid := g, filled_squares := filled_squares b + 1,
                                  turn := (if turn b = 0 then 1 else 0)\<rparr>))"
proof (cases "py_index [fst (players b), snd (players b)] (turn b)")
  case (Inl e)
  then show ?thesis by (simp add: move_def)
next
  case mark: (Inr mark)
  show ?thesis
  proof (cases "set_cell (grid b) p mark")
    case (Inl e)
    then show ?thesis using mark by (simp add: move_def)
  next
    case g: (Inr g)
    show ?thesis
    proof (cases "display_board (b\<lparr>grid := g\<rparr>)")
      case (Inl e)
      then have "move b p = (Some e, b\<lparr>grid := g\<rparr>)" using mark g by (simp add: move_def)
      then show ?thesis by blast
    next
      case d: (Inr u)
      define b2 where "b2 = b\<lparr>grid := g, filled_squares := filled_squares b + 1\<rparr>"
      define rest where "rest = (if filled_squares b2 = 9 then (Some (GameOver ''Game Over!''), b2)
                 else (None, b2\<lparr>turn := (if turn b2 = 0 then 1 else 0)\<rparr>))"
      have m: "move b p =
          (if filled_squares b2 \<ge> 5 then
             (case check_win b2 p of
                 Inl e \<Rightarrow> (Some e, b2)
               | Inr win \<Rightarrow> if win then (Some (Win mark), b2) else rest)
           else rest)"
        using mark g d by (simp add: move_def b2_def rest_def Let_def split: sum.splits)
      have r: "(\<exists>e. rest = (Some e, b2)) \<or> rest = (None, b2\<lparr>turn := (if turn b = 0 then 1 else 0)\<rparr>)"
        by (simp add: rest_def) (simp add: b2_def)
      have "(\<exists>e. move b p = (Some e, b2)) \<or> move b p = rest"
        unfolding m by (cases "check_win b2 p") auto
      then have "(\<exists>e. move b p = (Some e, b2))
                  \<or> move b p = (None, b2\<lparr>turn := (if turn b = 0 then 1 else 0)\<rparr>)"
        using r by auto
      then show ?thesis unfolding b2_def by auto
    qed
  qed
qed

lemma move_turn_return:
  "fst (move b p) = None \<Longrightarrow> turn (snd (move b p)) = (if turn b = 0 then 1 else 0)"
  using move_cases[of b p] by (elim disjE exE) simp_all

lemma move_turn_raise:
  "fst (move b p) \<noteq> None \<Longrightarrow> turn (snd (move b p)) = turn b"
  using move_cases[of b p] by (elim disjE exE) simp_all

lemma validated_turn_raise:
  "fst (validated_move b s) \<noteq> None \<Longrightarrow> turn (snd (validated_move b s)) = turn b"
  using move_turn_raise[of b] by (cases "validate_move b s") (simp_all add: validated_move_def)

lemma play_turn:
  "turn b0 = int (k mod 2) \<Longrightarrow> play b0 ps = Some b \<Longrightarrow> turn b = int ((k + length ps) mod 2)"
proof (rule play_invariant[where I = "\<lambda>n b. turn b = int (n mod 2)"])
  fix n b p b'
  assume t: "turn b = int (n mod 2)" and "legal b p" and m: "move b p = (None, b')"
  have "turn b' = (if turn b = 0 then 1 else 0)" using move_turn_return[of b p] m by simp
  moreover have "(if int (n mod 2) = 0 then 1 else 0) = int (Suc n mod 2)" by presburger
  ultimately show "turn b' = int (Suc n mod 2)" using t by simp
qed

lemma count_step:
  assumes n1: "fst pl \<noteq> '' ''" and n2: "snd pl \<noteq> '' ''"
    and inv: "count_inv pl n b" and l: "legal b p"
  shows "filled_squares (snd (move b p)) = int (Suc n)"
    and "occupied (grid (snd (move b p))) = Suc n"
    and "fst (move b p) = None \<longrightarrow> count_inv pl (Suc n) (snd (move b p))"
proof -
  from inv have wb: "wf_board b" and pl: "players b = pl" and f: "filled_squares b = int n"
    and occ: "occupied (grid b) = n" by (simp_all add: count_inv_def)
  have wf: "wf_grid (grid b)" using wb by (simp add: wf_board_def)
  have ir: "in_range p" using l by (rule legal_in_range)
  have bl: "at (grid b) p = '' ''" using wf l by (rule legal_blank)
  have cmn: "current_mark b \<noteq> '' ''" using n1 n2 pl by (simp add: current_mark_def)
  have "card (cells_with (put (grid b) p (current_mark b)) (\<lambda>v. v \<noteq> '' ''))
          = Suc (card (cells_with (grid b) (\<lambda>v. v \<noteq> '' '')))"
    using wf ir bl cmn by (intro card_cells_with_put_new) simp_all
  then have o2: "occupied (grid (marked b p)) = Suc n"
    using occ by (simp add: marked_def occupied_def)
  have f2: "filled_squares (marked b p) = int (Suc n)" using f by (simp add: marked_def)
  have w2: "wf_grid (grid (marked b p))" using wf by (simp add: marked_def wf_grid_put)
  have p2: "players (marked b p) = pl" using pl by (simp add: marked_def)
  have cases: "move b p = (Some (Win (current_mark b)), marked b p) \<or> move b p = finish (marked b p)"
    unfolding move_legal[OF wb l] by simp
  have fin: "filled_squares (snd (finish b2)) = filled_squares b2 \<and> grid (snd (finish b2)) = grid b2
      \<and> players (snd (finish b2)) = players b2 \<and> turn (snd (finish b2)) \<in> {0, 1, turn b2}" for b2
    by (simp add: finish_def)
  show "filled_squares (snd (move b p)) = int (Suc n)" using cases f2 fin by auto
  show "occupied (grid (snd (move b p))) = Suc n" using cases o2 fin by auto
  show "fst (move b p) = None \<longrightarrow> count_inv pl (Suc n) (snd (move b p))"
  proof
    assume none: "fst (move b p) = None"
    then have mf: "move b p = finish (marked b p)" using cases by auto
    then have "filled_squares (marked b p) \<noteq> 9" using none by (auto simp: finish_def split: if_splits)
    then have "turn (snd (finish (marked b p))) \<in> {0, 1}" by (simp add: finish_def)
    then show "count_inv pl (Suc n) (snd (move b p))"
      unfolding mf count_inv_def wf_board_def using fin[of "marked b p"] w2 p2 f2 o2 by simp
  qed
qed

lemma count_inv_reset: "count_inv (players b0) 0 (reset_board b0)"
proof -
  have "cells_with (grid (reset_board b0)) (\<lambda>v. v \<noteq> '' '') = {}"
    by (rule cells_with_reset) simp
  then show ?thesis
    by (simp add: count_inv_def wf_board_def wf_reset occupied_def) (simp add: reset_board_def)
qed

lemma play_count_inv:
  assumes "fst (players b0) \<noteq> '' ''" and "snd (players b0) \<noteq> '' ''"
    and "play (reset_board b0) ps = Some b"
  shows "count_inv (players b0) (length ps) b"
proof -
  have "count_inv (players b0) (0 + length ps) b"
  proof (rule play_invariant[where I = "count_inv (players b0)", OF _ count_inv_reset assms(3)])
    fix n b p b'
    assume "count_inv (players b0) n b" and "legal b p" and "move b p = (None, b')"
    then show "count_inv (players b0) (Suc n) b'"
      using count_step(3)[OF assms(1,2), of n b p] by simp
  qed
  then show ?thesis by simp
qed

lemma play_game_inv:
  assumes "fst (players b0) \<noteq> snd (players b0)"
    and "fst (players b0) \<noteq> '' ''" and "snd (players b0) \<noteq> '' ''"
    and "play (reset_board b0) ps = Some b"
  shows "game_inv (players b0) (length ps) b"
proof -
  have "game_inv (players b0) (0 + length ps) b"
  proof (rule play_invariant[where I = "game_inv (players b0)",
        OF _ game_inv_reset[OF assms(2,3)] assms(4)])
    fix n b p b'
    assume "game_inv (players b0) n b" and "legal b p" and "move b p = (None, b')"
    then show "game_inv (players b0) (Suc n) b'"
      using game_step(7)[OF assms(1,2,3), of n b p] by simp
  qed
  then show ?thesis by simp
qed

subsection \<open>Resetting\<close>

text \<open>
  Claim C9. For every board state, also one reached after a win, \<open>reset_board\<close> gives a
  board whose nine cells are blank, whose turn index is 0 and whose count of filled squares
  is 0. It raises nothing: it reads no cell and indexes nothing. The players stay.
\<close>

theorem reset_board_clears:
  "grid (reset_board b) = [['' '', '' '', '' ''], ['' '', '' '', '' ''], ['' '', '' '', '' '']]
   \<and> map (cell (grid (reset_board b)))
        [(0, 0), (0, 1), (0, 2), (1, 0), (1, 1), (1, 2), (2, 0), (2, 1), (2, 2)]
      = [Inr '' '', Inr '' '', Inr '' '', Inr '' '', Inr '' '', Inr '' '', Inr '' '', Inr '' '',
         Inr '' '']
   \<and> occupied (grid (reset_board b)) = 0
   \<and> turn (reset_board b) = 0
   \<and> filled_squares (reset_board b) = 0
   \<and> players (reset_board b) = players b"
proof -
  have c: "map (cell (grid (reset_board b)))
        [(0, 0), (0, 1), (0, 2), (1, 0), (1, 1), (1, 2), (2, 0), (2, 1), (2, 2)]
      = [Inr '' '', Inr '' '', Inr '' '', Inr '' '', Inr '' '', Inr '' '', Inr '' '', Inr '' '',
         Inr '' '']"
    by (simp add: reset_grid cell_def py_index_def py_slot_def)
  have "cells_with (grid (reset_board b)) (\<lambda>v. v \<noteq> '' '') = {}"
    by (rule cells_with_reset) simp
  then have o: "occupied (grid (reset_board b)) = 0" by (simp add: occupied_def)
  have t: "turn (reset_board b) = 0 \<and> filled_squares (reset_board b) = 0
       \<and> players (reset_board b) = players b"
    by (simp add: reset_board_def)
  show ?thesis using reset_grid[of b] c o t by blast
qed

lemma finish_fst: "fst (finish b2) = None \<or> fst (finish b2) = Some (GameOver ''Game Over!'')"
  by (simp add: finish_def)

lemma finish_snd:
  "grid (snd (finish b2)) = grid b2 \<and> filled_squares (snd (finish b2)) = filled_squares b2"
  by (simp add: finish_def)

lemma finish_draw: "(fst (finish b2) = Some (GameOver ''Game Over!'')) = (filled_squares b2 = 9)"
  by (simp add: finish_def)

subsection \<open>The turn index\<close>

text \<open>
  Claim C5. After a sequence of legal moves from a reset board, each of which let the game
  go on, the turn index is the number of moves modulo 2: it alternates 0, 1, 0, 1. A call of
  \<open>move\<close> that returns flips the turn index; a call that raises, be it the \<open>IndexError\<close> of
  a rejected position or the \<open>Win\<close> or \<open>GameOver\<close> of a last move, leaves it as it was,
  and so does a typed position that \<open>_validate_move\<close> rejects.
\<close>

theorem turn_alternates:
  "(play (reset_board b0) ps = Some b \<longrightarrow> turn b = int (length ps mod 2))
   \<and> (fst (move b p) = None \<longrightarrow> turn (snd (move b p)) = (if turn b = 0 then 1 else 0))
   \<and> (fst (move b p) \<noteq> None \<longrightarrow> turn (snd (move b p)) = turn b)
   \<and> (fst (validated_move b s) \<noteq> None \<longrightarrow> turn (snd (validated_move b s)) = turn b)"
proof -
  have "turn (reset_board b0) = int (0 mod 2)" by (simp add: reset_board_def)
  from play_turn[OF this] have "play (reset_board b0) ps = Some b \<longrightarrow> turn b = int (length ps mod 2)"
    by simp
  then show ?thesis
    using move_turn_return[of b p] move_turn_raise[of b p] validated_turn_raise[of b s] by blast
qed

text \<open>Three moves of a game of \<open>X\<close> and \<open>O\<close>, a first move, the winning fifth move and the
  rejected text \<open>0\<close>.\<close>

theorem turn_alternates_witness:
  "turn (the (play (reset_board (init_board (''X'', ''O''))) [(0, 0), (1, 1), (0, 1)])) = 1
   \<and> turn (snd (move (init_board (''X'', ''O'')) (0, 0))) = 1
   \<and> turn (snd (move \<lparr>grid = [[''X'', ''X'', '' ''], [''O'', ''O'', '' ''], ['' '', '' '', '' '']],
                        turn = 0, filled_squares = 4, players = (''X'', ''O'')\<rparr> (0, 2))) = 0
   \<and> turn (snd (validated_move (init_board (''X'', ''O'')) ''0'')) = 0"
proof -
  let ?b0 = "init_board (''X'', ''O'')"
  let ?b3 = "\<lparr>grid = [[''X'', ''X'', '' ''], ['' '', ''O'', '' ''], ['' '', '' '', '' '']],
               turn = 1, filled_squares = 3, players = (''X'', ''O'')\<rparr>"
  let ?b4 = "\<lparr>grid = [[''X'', ''X'', '' ''], [''O'', ''O'', '' ''], ['' '', '' '', '' '']],
               turn = 0, filled_squares = 4, players = (''X'', ''O'')\<rparr>"
  have p: "play (reset_board ?b0) [(0, 0), (1, 1), (0, 1)] = Some ?b3" by code_simp
  have 1: "turn (the (play (reset_board ?b0) [(0, 0), (1, 1), (0, 1)])) = 1"
    using turn_alternates[of ?b0 "[(0, 0), (1, 1), (0, 1)]" ?b3] p by simp
  have m0: "fst (move ?b0 (0, 0)) = None" by code_simp
  have t0: "turn ?b0 = 0" by code_simp
  have 2: "turn (snd (move ?b0 (0, 0))) = 1"
    using turn_alternates[of ?b0 "[]" ?b0 "(0, 0)"] m0 t0 by simp
  have m4: "fst (move ?b4 (0, 2)) \<noteq> None" by code_simp
  have 3: "turn (snd (move ?b4 (0, 2))) = 0"
    using turn_alternates[of ?b0 "[]" ?b4 "(0, 2)"] m4 by simp
  have v: "fst (validated_move ?b0 ''0'') \<noteq> None" by code_simp
  have 4: "turn (snd (validated_move ?b0 ''0'')) = 0"
    using turn_alternates[of ?b0 "[]" ?b0 "(0, 0)" "''0''"] v t0 by simp
  show ?thesis using 1 2 3 4 by blast
qed

subsection \<open>The count of filled squares\<close>

text \<open>
  Claim C6. For marks other than the blank, after \<open>N\<close> legal moves from a reset board (a fresh
  board is a reset board) the counter \<open>_filled_squares\<close> is \<open>N\<close>, it is the number of cells
  of the grid that are not blank, and it is at most 9; this holds after every move that let
  the game go on and after a further legal move, whatever its outcome.
\<close>

theorem occupied_count:
  assumes "fst (players b0) \<noteq> '' ''" and "snd (players b0) \<noteq> '' ''"
    and "play (reset_board b0) ps = Some b"
  shows "filled_squares b = int (length ps) \<and> occupied (grid b) = length ps \<and> length ps \<le> 9
       \<and> (legal b p \<longrightarrow>
            filled_squares (snd (move b p)) = int (length ps) + 1 \<and>
            occupied (grid (snd (move b p))) = length ps + 1 \<and>
            length ps + 1 \<le> 9)"
proof -
  have inv: "count_inv (players b0) (length ps) b" using assms by (rule play_count_inv)
  then have a: "filled_squares b = int (length ps)" and o: "occupied (grid b) = length ps"
    by (simp_all add: count_inv_def)
  have le: "length ps \<le> 9" using o occupied_le[of "grid b"] by simp
  have "filled_squares (snd (move b p)) = int (length ps) + 1 \<and>
        occupied (grid (snd (move b p))) = length ps + 1 \<and> length ps + 1 \<le> 9" if l: "legal b p"
  proof -
    have f: "filled_squares (snd (move b p)) = int (Suc (length ps))"
      and o2: "occupied (grid (snd (move b p))) = Suc (length ps)"
      using count_step(1,2)[OF assms(1,2) inv l] by auto
    have "Suc (length ps) \<le> 9" using o2 occupied_le[of "grid (snd (move b p))"] by simp
    then show ?thesis using f o2 by simp
  qed
  then show ?thesis using a o le by blast
qed

text \<open>Four moves of a game of \<open>X\<close> and \<open>O\<close>, then the fifth.\<close>

theorem occupied_count_witness:
  "filled_squares \<lparr>grid = [[''X'', ''X'', '' ''], [''O'', ''O'', '' ''], ['' '', '' '', '' '']],
                    turn = 0, filled_squares = 4, players = (''X'', ''O'')\<rparr> = 4
   \<and> occupied [[''X'', ''X'', '' ''], [''O'', ''O'', '' ''], ['' '', '' '', '' '']] = 4
   \<and> occupied (grid (snd (move
        \<lparr>grid = [[''X'', ''X'', '' ''], [''O'', ''O'', '' ''], ['' '', '' '', '' '']],
         turn = 0, filled_squares = 4, players = (''X'', ''O'')\<rparr> (0, 2)))) = 5"
proof -
  let ?b0 = "init_board (''X'', ''O'')"
  let ?b4 = "\<lparr>grid = [[''X'', ''X'', '' ''], [''O'', ''O'', '' ''], ['' '', '' '', '' '']],
               turn = 0, filled_squares = 4, players = (''X'', ''O'')\<rparr>"
  have n1: "fst (players ?b0) \<noteq> '' ''" and n2: "snd (players ?b0) \<noteq> '' ''" by code_simp+
  have p: "play (reset_board ?b0) [(0, 0), (1, 1), (0, 1), (1, 0)] = Some ?b4" by code_simp
  have l: "legal ?b4 (0, 2)" by code_simp
  show ?thesis using occupied_count[OF n1 n2 p, of "(0, 2)"] l by simp
qed

subsection \<open>Win and draw\<close>

text \<open>What a legal move does in a game of two different marks, neither of them blank.\<close>

lemma game_move:
  assumes "fst (players b0) \<noteq> snd (players b0)"
    and "fst (players b0) \<noteq> '' ''" and "snd (players b0) \<noteq> '' ''"
    and "play (reset_board b0) ps = Some b" and "legal b p"
  shows "grid (snd (move b p)) = grid (marked b p)"
    and "(\<exists>m. m \<noteq> '' '' \<and> has_line (grid (marked b p)) m)
           \<Longrightarrow> fst (move b p) = Some (Win (current_mark b))"
    and "\<not> (\<exists>m. m \<noteq> '' '' \<and> has_line (grid (marked b p)) m)
           \<Longrightarrow> move b p = finish (marked b p)"
    and "m \<noteq> '' '' \<Longrightarrow> has_line (grid (marked b p)) m \<Longrightarrow> m = current_mark b"
    and "occupied (grid (marked b p)) = Suc (length ps)"
    and "filled_squares (marked b p) = int (Suc (length ps))"
    and "current_mark b = (if even (length ps) then fst (players b0) else snd (players b0))"
    and "m \<noteq> '' '' \<Longrightarrow> \<not> has_line (grid b) m"
proof -
  have inv: "game_inv (players b0) (length ps) b" using assms(1-4) by (rule play_game_inv)
  note st = game_step[OF assms(1,2,3) inv assms(5)]
  define L where "L = (\<exists>m. m \<noteq> '' '' \<and> has_line (grid (marked b p)) m)"
  have mv: "move b p = (if L then (Some (Win (current_mark b)), marked b p) else finish (marked b p))"
    unfolding L_def by (rule st(1))
  show "grid (snd (move b p)) = grid (marked b p)"
    unfolding mv by (cases L) (simp_all add: finish_snd)
  show "(\<exists>m. m \<noteq> '' '' \<and> has_line (grid (marked b p)) m)
           \<Longrightarrow> fst (move b p) = Some (Win (current_mark b))"
    unfolding mv L_def[symmetric] by simp
  show "\<not> (\<exists>m. m \<noteq> '' '' \<and> has_line (grid (marked b p)) m)
           \<Longrightarrow> move b p = finish (marked b p)"
    unfolding mv L_def[symmetric] by simp
  show "m \<noteq> '' '' \<Longrightarrow> has_line (grid (marked b p)) m \<Longrightarrow> m = current_mark b"
    using st(2) by blast
  show "occupied (grid (marked b p)) = Suc (length ps)" by (rule st(3))
  show "filled_squares (marked b p) = int (Suc (length ps))" by (rule st(4))
  show "current_mark b = (if even (length ps) then fst (players b0) else snd (players b0))"
    by (rule st(6))
  show "m \<noteq> '' '' \<Longrightarrow> \<not> has_line (grid b) m"
    using inv by (simp add: game_inv_def)
qed

text \<open>
  Claim C1. In a game of two different marks, neither of them the blank, take any sequence
  of legal moves from a reset board after each of which the game went on, and a further
  legal move. No axis is full of one mark before that move. The move raises \<open>Win\<close> exactly
  when the grid after it has an axis full of one mark; the mark of \<open>Win\<close> is the mark of the
  player who moved, and it is the mark on every such axis. So \<open>Win\<close> comes with the move
  that completes a line and with no earlier move.
\<close>

theorem win_when_line_completed:
  assumes "fst (players b0) \<noteq> snd (players b0)"
    and "fst (players b0) \<noteq> '' ''" and "snd (players b0) \<noteq> '' ''"
    and "play (reset_board b0) ps = Some b" and "legal b p"
  shows "(\<forall>m. m \<noteq> '' '' \<longrightarrow> \<not> has_line (grid b) m)
       \<and> ((\<exists>m. m \<noteq> '' '' \<and> has_line (grid (snd (move b p))) m)
            = (fst (move b p) = Some (Win (current_mark b))))
       \<and> (\<forall>m. fst (move b p) = Some (Win m) \<longrightarrow>
             m = current_mark b \<and> m \<noteq> '' '' \<and> has_line (grid (snd (move b p))) m)
       \<and> (\<forall>m. m \<noteq> '' '' \<and> has_line (grid (snd (move b p))) m \<longrightarrow> m = current_mark b)
       \<and> current_mark b = (if even (length ps) then fst (players b0) else snd (players b0))"
proof -
  note gm = game_move[OF assms]
  define L where "L = (\<exists>m. m \<noteq> '' '' \<and> has_line (grid (marked b p)) m)"
  have g: "grid (snd (move b p)) = grid (marked b p)" by (rule gm(1))
  have w: "L \<Longrightarrow> fst (move b p) = Some (Win (current_mark b))"
    unfolding L_def by (rule gm(2))
  have nw: "\<not> L \<Longrightarrow> fst (move b p) \<noteq> Some (Win m)" for m
    using gm(3) finish_fst[of "marked b p"] unfolding L_def by auto
  have only: "m \<noteq> '' '' \<Longrightarrow> has_line (grid (marked b p)) m \<Longrightarrow> m = current_mark b" for m
    by (rule gm(4))
  have lc: "L \<Longrightarrow> current_mark b \<noteq> '' '' \<and> has_line (grid (marked b p)) (current_mark b)"
    unfolding L_def using only by blast
  have 1: "\<forall>m. m \<noteq> '' '' \<longrightarrow> \<not> has_line (grid b) m" using gm(8) by blast
  have 2: "(\<exists>m. m \<noteq> '' '' \<and> has_line (grid (snd (move b p))) m)
            = (fst (move b p) = Some (Win (current_mark b)))"
    unfolding g L_def[symmetric] using w nw by blast
  have 3: "\<forall>m. fst (move b p) = Some (Win m) \<longrightarrow>
             m = current_mark b \<and> m \<noteq> '' '' \<and> has_line (grid (snd (move b p))) m"
  proof (intro allI impI)
    fix m assume a: "fst (move b p) = Some (Win m)"
    then have L using nw by blast
    then have "m = current_mark b" using w a by simp
    then show "m = current_mark b \<and> m \<noteq> '' '' \<and> has_line (grid (snd (move b p))) m"
      unfolding g using lc[OF \<open>L\<close>] by simp
  qed
  have 4: "\<forall>m. m \<noteq> '' '' \<and> has_line (grid (snd (move b p))) m \<longrightarrow> m = current_mark b"
    unfolding g using only by blast
  show ?thesis using 1 2 3 4 gm(7) by blast
qed

text \<open>The scenario of the specification: \<open>X\<close> completes the top row with the fifth move.\<close>

theorem win_when_line_completed_witness:
  "fst (move \<lparr>grid = [[''X'', ''X'', '' ''], [''O'', ''O'', '' ''], ['' '', '' '', '' '']],
               turn = 0, filled_squares = 4, players = (''X'', ''O'')\<rparr> (0, 2)) = Some (Win ''X'')
   \<and> \<not> has_line (grid \<lparr>grid = [[''X'', ''X'', '' ''], [''O'', ''O'', '' ''], ['' '', '' '', '' '']],
               turn = 0, filled_squares = 4, players = (''X'', ''O'')\<rparr>) ''X''
   \<and> \<not> has_line (grid \<lparr>grid = [[''X'', ''X'', '' ''], [''O'', ''O'', '' ''], ['' '', '' '', '' '']],
               turn = 0, filled_squares = 4, players = (''X'', ''O'')\<rparr>) ''O''"
proof -
  let ?b0 = "init_board (''X'', ''O'')"
  let ?b4 = "\<lparr>grid = [[''X'', ''X'', '' ''], [''O'', ''O'', '' ''], ['' '', '' '', '' '']],
               turn = 0, filled_squares = 4, players = (''X'', ''O'')\<rparr>"
  have d: "fst (players ?b0) \<noteq> snd (players ?b0)"
    and n1: "fst (players ?b0) \<noteq> '' ''" and n2: "snd (players ?b0) \<noteq> '' ''" by code_simp+
  have p: "play (reset_board ?b0) [(0, 0), (1, 1), (0, 1), (1, 0)] = Some ?b4" by code_simp
  have l: "legal ?b4 (0, 2)" by code_simp
  note t = win_when_line_completed[OF d n1 n2 p l]
  have x: "''X'' \<noteq> '' ''" and o: "''O'' \<noteq> '' ''" by simp_all
  have hl: "has_line (grid (snd (move ?b4 (0, 2)))) ''X''" by code_simp
  have cm: "current_mark ?b4 = ''X''" by code_simp
  have ex: "\<exists>m. m \<noteq> '' '' \<and> has_line (grid (snd (move ?b4 (0, 2)))) m"
    using x hl by (intro exI[of _ "''X''"] conjI)
  have "fst (move ?b4 (0, 2)) = Some (Win (current_mark ?b4))"
    using t[THEN conjunct2, THEN conjunct1] ex by (rule iffD1)
  then have 1: "fst (move ?b4 (0, 2)) = Some (Win ''X'')" unfolding cm .
  note nl = t[THEN conjunct1, THEN spec, THEN mp]
  show ?thesis using 1 nl[OF x] nl[OF o] by (intro conjI)
qed

text \<open>
  Claim C2. Under the same conditions, the move raises \<open>GameOver\<close> exactly when the grid
  after it has nine cells that are not blank and no axis full of one mark; after the move
  the number of such cells is the number of moves made. So the ninth legal move raises
  \<open>GameOver\<close> when it completes no line, and \<open>Win\<close>, not \<open>GameOver\<close>, when it completes one.
\<close>

theorem draw_when_full_without_line:
  assumes "fst (players b0) \<noteq> snd (players b0)"
    and "fst (players b0) \<noteq> '' ''" and "snd (players b0) \<noteq> '' ''"
    and "play (reset_board b0) ps = Some b" and "legal b p"
  shows "((fst (move b p) = Some (GameOver ''Game Over!''))
            = (occupied (grid (snd (move b p))) = 9
               \<and> \<not> (\<exists>m. m \<noteq> '' '' \<and> has_line (grid (snd (move b p))) m)))
       \<and> (\<forall>msg. fst (move b p) = Some (GameOver msg) \<longrightarrow> msg = ''Game Over!'')
       \<and> occupied (grid (snd (move b p))) = length ps + 1
       \<and> filled_squares (snd (move b p)) = int (length ps) + 1
       \<and> (length ps = 8 \<and> \<not> (\<exists>m. m \<noteq> '' '' \<and> has_line (grid (snd (move b p))) m)
            \<longrightarrow> fst (move b p) = Some (GameOver ''Game Over!''))
       \<and> (length ps = 8 \<and> (\<exists>m. m \<noteq> '' '' \<and> has_line (grid (snd (move b p))) m)
            \<longrightarrow> fst (move b p) = Some (Win (current_mark b)))"
proof -
  note gm = game_move[OF assms]
  define L where "L = (\<exists>m. m \<noteq> '' '' \<and> has_line (grid (marked b p)) m)"
  have g: "grid (snd (move b p)) = grid (marked b p)" by (rule gm(1))
  have w: "L \<Longrightarrow> fst (move b p) = Some (Win (current_mark b))"
    unfolding L_def by (rule gm(2))
  have f: "\<not> L \<Longrightarrow> move b p = finish (marked b p)"
    unfolding L_def by (rule gm(3))
  have o: "occupied (grid (marked b p)) = Suc (length ps)" by (rule gm(5))
  have fs: "filled_squares (marked b p) = int (Suc (length ps))" by (rule gm(6))
  have fsm: "filled_squares (snd (move b p)) = int (length ps) + 1"
  proof (cases L)
    case True
    then have "move b p = (Some (Win (current_mark b)), marked b p)"
      using game_step(1)[OF assms(1,2,3) play_game_inv[OF assms(1-4)] assms(5)]
      unfolding L_def by simp
    then show ?thesis using fs by simp
  next
    case False
    then show ?thesis using f fs by (simp add: finish_snd)
  qed
  have draw: "(fst (move b p) = Some (GameOver ''Game Over!'')) = (length ps = 8 \<and> \<not> L)"
  proof (cases L)
    case True
    then show ?thesis using w by simp
  next
    case False
    have "(fst (finish (marked b p)) = Some (GameOver ''Game Over!'')) = (length ps = 8)"
      unfolding finish_draw fs by auto
    then show ?thesis using False f by simp
  qed
  have msg: "\<forall>msg. fst (move b p) = Some (GameOver msg) \<longrightarrow> msg = ''Game Over!''"
  proof (cases L)
    case True
    then show ?thesis using w by simp
  next
    case False
    then show ?thesis using f finish_fst[of "marked b p"] by auto
  qed
  have o9: "(occupied (grid (snd (move b p))) = 9) = (length ps = 8)"
    unfolding g o by auto
  show ?thesis
    unfolding g o9 L_def[symmetric] unfolding o using draw msg fsm w by auto
qed

text \<open>The scenario of the specification: nine moves, no line, the ninth raises
  \<open>GameOver\<close>.\<close>

theorem draw_when_full_without_line_witness:
  "fst (move \<lparr>grid = [[''X'', ''O'', ''X''], [''X'', ''O'', ''O''], [''O'', ''X'', '' '']],
               turn = 0, filled_squares = 8, players = (''X'', ''O'')\<rparr> (2, 2))
     = Some (GameOver ''Game Over!'')
   \<and> occupied (grid (snd (move
        \<lparr>grid = [[''X'', ''O'', ''X''], [''X'', ''O'', ''O''], [''O'', ''X'', '' '']],
         turn = 0, filled_squares = 8, players = (''X'', ''O'')\<rparr> (2, 2)))) = 9
   \<and> \<not> has_line (grid (snd (move
        \<lparr>grid = [[''X'', ''O'', ''X''], [''X'', ''O'', ''O''], [''O'', ''X'', '' '']],
         turn = 0, filled_squares = 8, players = (''X'', ''O'')\<rparr> (2, 2)))) ''X''"
proof -
  let ?b0 = "init_board (''X'', ''O'')"
  let ?b8 = "\<lparr>grid = [[''X'', ''O'', ''X''], [''X'', ''O'', ''O''], [''O'', ''X'', '' '']],
               turn = 0, filled_squares = 8, players = (''X'', ''O'')\<rparr>"
  have d: "fst (players ?b0) \<noteq> snd (players ?b0)"
    and n1: "fst (players ?b0) \<noteq> '' ''" and n2: "snd (players ?b0) \<noteq> '' ''" by code_simp+
  have p: "play (reset_board ?b0)
             [(0, 0), (0, 1), (0, 2), (1, 1), (1, 0), (1, 2), (2, 1), (2, 0)] = Some ?b8"
    by code_simp
  have l: "legal ?b8 (2, 2)" by code_simp
  note t = draw_when_full_without_line[OF d n1 n2 p l]
  have go: "fst (move ?b8 (2, 2)) = Some (GameOver ''Game Over!'')" by code_simp
  have x: "''X'' \<noteq> '' ''" by simp
  have c: "occupied (grid (snd (move ?b8 (2, 2)))) = 9
     \<and> \<not> (\<exists>m. m \<noteq> '' '' \<and> has_line (grid (snd (move ?b8 (2, 2)))) m)"
    using t[THEN conjunct1] go by (rule iffD1)
  have "\<not> has_line (grid (snd (move ?b8 (2, 2)))) ''X''"
  proof
    assume "has_line (grid (snd (move ?b8 (2, 2)))) ''X''"
    then have "\<exists>m. m \<noteq> '' '' \<and> has_line (grid (snd (move ?b8 (2, 2)))) m"
      using x by (intro exI[of _ "''X''"] conjI)
    then show False using c[THEN conjunct2] by (rule notE[rotated])
  qed
  then show ?thesis using go c[THEN conjunct1] by (intro conjI)
qed

subsection \<open>The check of the code against the brute-force evaluation\<close>

lemma win_lines_axes: "set ` set WIN_LINES = set AXES"
  by (simp add: WIN_LINES_def AXES_def)

lemma line_mark_Some:
  assumes "line \<in> set WIN_LINES"
  shows "(line_mark g line = Some m) = (m \<noteq> '' '' \<and> line_of g m (set line))"
proof -
  obtain p rest where ln: "line = p # rest" using assms by (auto simp: WIN_LINES_def)
  show ?thesis
  proof (cases "cell g p")
    case (Inl e)
    then have "\<not> line_of g m (set line)" by (auto simp: line_of_def ln)
    then show ?thesis using Inl by (simp add: line_mark_def ln)
  next
    case (Inr v)
    show ?thesis
    proof (cases "v = m")
      case True
      then show ?thesis using Inr by (auto simp: line_mark_def ln line_of_def)
    next
      case False
      then have "\<not> line_of g m (set line)" using Inr by (auto simp: line_of_def ln)
      then show ?thesis using Inr False by (auto simp: line_mark_def ln)
    qed
  qed
qed

lemma set_map_filter: "set (List.map_filter f xs) = {y. \<exists>x\<in>set xs. f x = Some y}"
  by (induction xs) (auto split: option.splits)

lemma map_filter_marks:
  "set (List.map_filter (line_mark g) WIN_LINES) = {m. m \<noteq> '' '' \<and> has_line g m}"
proof -
  have "set (List.map_filter (line_mark g) WIN_LINES)
          = {m. \<exists>line\<in>set WIN_LINES. line_mark g line = Some m}"
    by (rule set_map_filter)
  also have "\<dots> = {m. \<exists>line\<in>set WIN_LINES. m \<noteq> '' '' \<and> line_of g m (set line)}"
    using line_mark_Some by blast
  also have "\<dots> = {m. m \<noteq> '' '' \<and> (\<exists>axis\<in>set ` set WIN_LINES. line_of g m axis)}"
    by blast
  finally show ?thesis by (simp add: win_lines_axes has_line_def)
qed

lemma brute_force_won:
  assumes "m \<noteq> '' ''" and "has_line g m"
    and "\<And>m'. m' \<noteq> '' '' \<Longrightarrow> has_line g m' \<Longrightarrow> m' = m"
  shows "brute_force g = Won m"
proof -
  define ms where "ms = List.map_filter (line_mark g) WIN_LINES"
  have s: "set ms = {m. m \<noteq> '' '' \<and> has_line g m}" unfolding ms_def by (rule map_filter_marks)
  then have "m \<in> set ms" using assms(1,2) by blast
  then obtain x xs where c: "ms = x # xs" by (cases ms) auto
  then have "x \<in> set ms" by simp
  then have "x \<noteq> '' '' \<and> has_line g x" unfolding s by blast
  then have "x = m" using assms(3) by blast
  then show ?thesis unfolding brute_force_def ms_def[symmetric] c by simp
qed

lemma brute_force_none:
  assumes "\<not> (\<exists>m. m \<noteq> '' '' \<and> has_line g m)"
  shows "brute_force g = (if occupied g = 9 then Draw else Continue)"
proof -
  define ms where "ms = List.map_filter (line_mark g) WIN_LINES"
  have s: "set ms = {m. m \<noteq> '' '' \<and> has_line g m}"
    unfolding ms_def by (rule map_filter_marks)
  have "ms = []"
  proof (cases ms)
    case Nil
    then show ?thesis .
  next
    case (Cons x xs)
    then have "x \<in> {m. m \<noteq> '' '' \<and> has_line g m}" unfolding s[symmetric] by simp
    then have "x \<noteq> '' '' \<and> has_line g x" by (rule CollectD)
    then have "\<exists>m. m \<noteq> '' '' \<and> has_line g m" by (rule exI)
    then show ?thesis using assms by (rule notE[rotated])
  qed
  then show ?thesis unfolding brute_force_def ms_def[symmetric] by simp
qed

text \<open>
  Claim C7. In a game of two different marks, neither of them the blank, after every legal
  move of a sequence of legal moves from a reset board the outcome of \<open>move\<close>, which
  checks the axes through the position just played and only from the fifth filled square
  on, is the outcome of the brute-force scan of all eight lines of the board after the
  move.
\<close>

theorem check_win_refines_brute_force:
  assumes "fst (players b0) \<noteq> snd (players b0)"
    and "fst (players b0) \<noteq> '' ''" and "snd (players b0) \<noteq> '' ''"
    and "play (reset_board b0) ps = Some b" and "legal b p"
  shows "outcome_of (fst (move b p)) = Some (brute_force (grid (snd (move b p))))"
proof -
  note gm = game_move[OF assms]
  define L where "L = (\<exists>m. m \<noteq> '' '' \<and> has_line (grid (marked b p)) m)"
  have g: "grid (snd (move b p)) = grid (marked b p)" by (rule gm(1))
  show ?thesis
  proof (cases L)
    case True
    then have w: "fst (move b p) = Some (Win (current_mark b))" unfolding L_def by (rule gm(2))
    from True obtain m where m: "m \<noteq> '' ''" "has_line (grid (marked b p)) m"
      unfolding L_def by blast
    then have mc: "m = current_mark b" by (rule gm(4))
    have "brute_force (grid (marked b p)) = Won (current_mark b)"
      using m gm(4) unfolding mc by (rule brute_force_won)
    then show ?thesis unfolding g w by (simp add: outcome_of_def)
  next
    case False
    then have f: "move b p = finish (marked b p)" unfolding L_def by (rule gm(3))
    have bf: "brute_force (grid (marked b p))
                = (if occupied (grid (marked b p)) = 9 then Draw else Continue)"
      using False unfolding L_def by (rule brute_force_none)
    have "(filled_squares (marked b p) = 9) = (occupied (grid (marked b p)) = 9)"
      unfolding gm(5) gm(6) by auto
    then show ?thesis unfolding g bf unfolding f by (simp add: finish_def outcome_of_def)
  qed
qed

text \<open>The fifth move of the scenario of the specification: both give \<open>Win\<close> of \<open>X\<close>.\<close>

theorem check_win_refines_brute_force_witness:
  "outcome_of (fst (move \<lparr>grid = [[''X'', ''X'', '' ''], [''O'', ''O'', '' ''], ['' '', '' '', '' '']],
               turn = 0, filled_squares = 4, players = (''X'', ''O'')\<rparr> (0, 2)))
     = Some (brute_force (grid (snd (move
         \<lparr>grid = [[''X'', ''X'', '' ''], [''O'', ''O'', '' ''], ['' '', '' '', '' '']],
          turn = 0, filled_squares = 4, players = (''X'', ''O'')\<rparr> (0, 2)))))
   \<and> brute_force (grid (snd (move
         \<lparr>grid = [[''X'', ''X'', '' ''], [''O'', ''O'', '' ''], ['' '', '' '', '' '']],
          turn = 0, filled_squares = 4, players = (''X'', ''O'')\<rparr> (0, 2)))) = Won ''X''"
proof -
  let ?b0 = "init_board (''X'', ''O'')"
  let ?b4 = "\<lparr>grid = [[''X'', ''X'', '' ''], [''O'', ''O'', '' ''], ['' '', '' '', '' '']],
               turn = 0, filled_squares = 4, players = (''X'', ''O'')\<rparr>"
  have d: "fst (players ?b0) \<noteq> snd (players ?b0)"
    and n1: "fst (players ?b0) \<noteq> '' ''" and n2: "snd (players ?b0) \<noteq> '' ''" by code_simp+
  have p: "play (reset_board ?b0) [(0, 0), (1, 1), (0, 1), (1, 0)] = Some ?b4" by code_simp
  have l: "legal ?b4 (0, 2)" by code_simp
  have 1: "outcome_of (fst (move ?b4 (0, 2))) = Some (brute_force (grid (snd (move ?b4 (0, 2)))))"
    by (rule check_win_refines_brute_force[OF d n1 n2 p l])
  have "outcome_of (fst (move ?b4 (0, 2))) = Some (Won ''X'')" by code_simp
  then have 2: "brute_force (grid (snd (move ?b4 (0, 2)))) = Won ''X''" unfolding 1 by simp
  show ?thesis using 1 2 by (intro conjI)
qed

subsection \<open>After the end of a game\<close>







end
